theory Spec2Isabelle
  imports Main "HOL-Library.Multiset" "HOL-Library.Sublist"
begin

section \<open>The staged command orchestrator of the neverest manager module\<close>

text \<open>
  The development embeds the class \<open>CommandsRequest\<close> and the notification path of
  \<open>Module\<close> (\<open>pybind/mgr/neverest/module.py\<close>) and the handler \<open>Request.delete\<close>
  (\<open>pybind/mgr/neverest/api.py\<close>). Objects are records, a method that mutates \<open>self\<close>
  returns the updated record, and a Python exception is a value of \<open>exn\<close>. Every method
  of \<open>CommandsRequest\<close> that changes the object runs under the lock of the object, so
  calls on one batch are taken one after the other.
\<close>

subsection \<open>Decimal rendering\<close>

text \<open>
  \<open>'%d' % index\<close> and \<open>str(id(self))\<close> render a non-negative integer in decimal,
  without leading zeros.
\<close>

definition digit_char :: "nat \<Rightarrow> char" where
  "digit_char d = char_of (48 + d)"

function str_nat :: "nat \<Rightarrow> string" where
  "str_nat n = (if n < 10 then [digit_char n] else str_nat (n div 10) @ [digit_char (n mod 10)])"
  by pat_completeness auto
termination
  by (relation "measure id") auto

declare str_nat.simps [simp del]

subsection \<open>Data\<close>

text \<open>
  \<open>CommandResult\<close> is a class of \<open>mgr_module\<close>; the orchestrator reads its \<open>tag\<close>, its
  result code \<open>r\<close> (0 is success) and the \<open>command\<close> attribute that \<open>run\<close> attaches.
  The payload of a command is opaque: the type parameter \<open>'c\<close>.
\<close>

record 'c CommandResult =
  tag :: string
  r :: int
  command :: 'c

record 'c CommandsRequest =
  uuid :: string
  running :: "'c CommandResult list"
  waiting :: "'c list list"
  finished :: "'c CommandResult list"
  failed :: "'c CommandResult list"

datatype exn = SendFailed | UnboundLocalError

datatype log_entry = LogError exn | LogWarn string | LogDebug string

text \<open>
  What the module gets from the manager it runs in (the global \<open>instance\<close> seen as a
  \<open>MgrModule\<close>): \<open>send_command mgr c t\<close> tells whether handing the command \<open>c\<close> with
  tag \<open>t\<close> to the control plane returns (\<open>True\<close>) or raises (\<open>False\<close>), and
  \<open>result_r mgr\<close> is the result code a \<open>CommandResult\<close> holds between its creation
  and its completion by the control plane.
\<close>

record 'c mgr =
  send_command :: "'c \<Rightarrow> string \<Rightarrow> bool"
  result_r :: int

record 'c Module =
  requests :: "'c CommandsRequest list"
  logged :: "log_entry list"

subsection \<open>CommandsRequest\<close>

text \<open>
  \<open>run\<close>: the loop over \<open>range(len(commands))\<close>, as a recursion on the index with the
  list \<open>results\<close> built so far. A raising \<open>send_command\<close> (or \<open>json.dumps\<close> of its
  argument) ends the loop with the exception; the results built so far are lost with
  the frame. Every caller passes \<open>self.uuid\<close> for the parameter \<open>uuid\<close>.
\<close>

function run_from :: "'c mgr \<Rightarrow> 'c list \<Rightarrow> string \<Rightarrow> nat \<Rightarrow> 'c CommandResult list
    \<Rightarrow> exn + 'c CommandResult list" where
  "run_from env commands uid index results =
     (if index < length commands then
        (let tg = uid @ '':'' @ str_nat index;
             result = \<lparr>tag = tg, r = result_r env, command = commands ! index\<rparr>
         in if send_command env (commands ! index) tg
            then run_from env commands uid (Suc index) (results @ [result])
            else Inl SendFailed)
      else Inr results)"
  by pat_completeness auto
termination
  by (relation "measure (\<lambda>(env, commands, uid, index, results). length commands - index)") auto

declare run_from.simps [simp del]

definition run :: "'c mgr \<Rightarrow> 'c list \<Rightarrow> string \<Rightarrow> exn + 'c CommandResult list" where
  "run env commands uid = run_from env commands uid 0 []"

text \<open>
  \<open>__init__\<close>: \<open>self_id\<close> is \<open>id(self)\<close>. The result is the entries written to the
  log and either the exception that leaves the constructor or the constructed object.
  When \<open>run\<close> raises, the handler logs the traceback and control reaches
  \<open>self.running.extend(results)\<close> with the local \<open>results\<close> unbound.
\<close>

definition init_request :: "'c mgr \<Rightarrow> nat \<Rightarrow> 'c list list
    \<Rightarrow> log_entry list \<times> (exn + 'c CommandsRequest)" where
  "init_request env self_id commands_arrays =
     (let self = \<lparr>uuid = str_nat self_id, running = [], waiting = drop 1 commands_arrays,
                  finished = [], failed = []\<rparr>
      in if length commands_arrays = 0 then ([], Inr self)
         else (case run env (commands_arrays ! 0) (uuid self) of
                 Inl e \<Rightarrow> ([LogError e], Inl UnboundLocalError)
               | Inr results \<Rightarrow> ([], Inr (self\<lparr>running := running self @ results\<rparr>))))"

text \<open>
  \<open>next\<close>: the head of \<open>waiting\<close> is removed before \<open>run\<close> is called, so an exception
  of \<open>run\<close> leaves the object with the stage popped and \<open>running\<close> as it was.
\<close>

definition next_stage :: "'c mgr \<Rightarrow> 'c CommandsRequest \<Rightarrow> exn option \<times> 'c CommandsRequest" where
  "next_stage env self =
     (if waiting self = [] then (None, self)
      else (let commands = waiting self ! 0;
                self1 = self\<lparr>waiting := drop 1 (waiting self)\<rparr>
            in case run env commands (uuid self1) of
                 Inl e \<Rightarrow> (Some e, self1)
               | Inr results \<Rightarrow> (None, self1\<lparr>running := running self1 @ results\<rparr>)))"

definition pop :: "nat \<Rightarrow> 'a list \<Rightarrow> 'a list" where
  "pop index xs = take index xs @ drop (Suc index) xs"

text \<open>
  \<open>finish\<close>: the loop over \<open>range(len(self.running))\<close> returns at the first index whose
  invocation carries the tag.
\<close>

function finish_from :: "nat \<Rightarrow> 'c CommandsRequest \<Rightarrow> string \<Rightarrow> bool \<times> 'c CommandsRequest" where
  "finish_from index self tg =
     (if index < length (running self) then
        (if tag (running self ! index) = tg then
           (if r (running self ! index) = 0
            then (True, self\<lparr>running := pop index (running self),
                              finished := finished self @ [running self ! index]\<rparr>)
            else (True, self\<lparr>running := pop index (running self),
                              failed := failed self @ [running self ! index]\<rparr>))
         else finish_from (Suc index) self tg)
      else (False, self))"
  by pat_completeness auto
termination
  by (relation "measure (\<lambda>(index, self, tg). length (running self) - index)") auto

declare finish_from.simps [simp del]

definition finish :: "'c CommandsRequest \<Rightarrow> string \<Rightarrow> bool \<times> 'c CommandsRequest" where
  "finish self tg = finish_from 0 self tg"

definition is_running :: "'c CommandsRequest \<Rightarrow> string \<Rightarrow> bool" where
  "is_running self tg = (tg \<in> set (map tag (running self)))"

definition is_ready :: "'c CommandsRequest \<Rightarrow> bool" where
  "is_ready self = (running self = [] \<and> waiting self \<noteq> [])"

definition is_waiting :: "'c CommandsRequest \<Rightarrow> bool" where
  "is_waiting self = (waiting self \<noteq> [])"

definition is_finished :: "'c CommandsRequest \<Rightarrow> bool" where
  "is_finished self = (running self = [] \<and> waiting self = [])"

definition has_failed :: "'c CommandsRequest \<Rightarrow> bool" where
  "has_failed self = (failed self \<noteq> [])"

definition get_state :: "'c CommandsRequest \<Rightarrow> string" where
  "get_state self =
     (if \<not> is_finished self then ''pending''
      else if has_failed self then ''failed''
      else ''success'')"

subsection \<open>Module\<close>

text \<open>
  \<open>_notify\<close>: every \<open>CommandsRequest\<close> of \<open>self.requests\<close> is a distinct object
  (\<open>submit_request\<close> appends a new one), so an object is identified by its position in
  the list: \<open>filter\<close> selects positions, and the methods called on \<open>request[0]\<close> rewrite
  the element at that position. The warnings that print lists of objects (whose text
  holds addresses) are logged without their argument.
\<close>

definition quoted :: "string \<Rightarrow> string" where
  "quoted s = [CHR 0x27] @ s @ [CHR 0x27]"

definition notify_inner :: "'c mgr \<Rightarrow> string \<Rightarrow> string \<Rightarrow> 'c Module \<Rightarrow> exn option \<times> 'c Module" where
  "notify_inner env notify_type tg self =
     (if notify_type = ''command'' then
        (let request = filter (\<lambda>x. is_running (requests self ! x) tg) [0..<length (requests self)];
             self1 = self\<lparr>logged := logged self
                        @ [LogWarn (''Processing request '' @ quoted tg), LogWarn ''Requests'']\<rparr>
         in if length request \<noteq> 1
            then (None, self1\<lparr>logged := logged self1 @ [LogWarn (''Unknown request '' @ quoted tg)]\<rparr>)
            else
              (let x = request ! 0;
                   request1 = snd (finish (requests self ! x) tg);
                   self2 = self1\<lparr>requests := (requests self)[x := request1],
                                 logged := logged self1 @ [LogWarn ''RUNNING Requests'',
                                   LogWarn ''WAITING Requests'', LogWarn ''FINISHED Requests'']\<rparr>
               in if is_ready request1
                  then (case next_stage env request1 of
                          (e, request2) \<Rightarrow> (e, self2\<lparr>requests := (requests self)[x := request2]\<rparr>))
                  else (None, self2)))
      else (None, self\<lparr>logged := logged self
                           @ [LogDebug (''Unhandled notification type '' @ quoted notify_type)]\<rparr>))"

definition notify :: "'c mgr \<Rightarrow> string \<Rightarrow> string \<Rightarrow> 'c Module \<Rightarrow> 'c Module" where
  "notify env notify_type tg self =
     (case notify_inner env notify_type tg self of
        (None, self1) \<Rightarrow> self1
      | (Some e, self1) \<Rightarrow> self1\<lparr>logged := logged self1 @ [LogError e]\<rparr>)"

text \<open>
  \<open>submit_request\<close>: \<open>self_id\<close> is the \<open>id\<close> of the object being constructed. An
  exception of the constructor leaves \<open>self.requests\<close> as it was.
\<close>

definition submit_request :: "'c mgr \<Rightarrow> nat \<Rightarrow> 'c list list \<Rightarrow> 'c Module \<Rightarrow> (exn + string) \<times> 'c Module" where
  "submit_request env self_id request self =
     (case init_request env self_id request of
        (entries, Inl e) \<Rightarrow> (Inl e, self\<lparr>logged := logged self @ entries\<rparr>)
      | (entries, Inr new) \<Rightarrow>
          (Inr (uuid new), self\<lparr>requests := requests self @ [new], logged := logged self @ entries\<rparr>))"

subsection \<open>The handler Request.delete\<close>

definition Request_delete :: "'c Module \<Rightarrow> int \<times> 'c Module" where
  "Request_delete inst =
     (let num_requests = int (length (requests inst));
          inst1 = inst\<lparr>requests := filter (\<lambda>x. \<not> is_finished x) (requests inst)\<rparr>
      in (num_requests - int (length (requests inst1)), inst1))"

subsection \<open>The control plane and sequences of calls\<close>

text \<open>
  Modelled from the spec: the completion of an invocation by the control plane
  (\<open>CommandResult.complete\<close> of \<open>mgr_module\<close>, which is not among the sources). The
  control plane holds the object it was given by \<open>send_command\<close> and sets its outcome,
  once, before it notifies the module with the tag; \<open>complete j rv\<close> sets the result
  code of the invocation at position \<open>j\<close> of \<open>running\<close> to \<open>rv\<close>.
\<close>

definition complete :: "nat \<Rightarrow> int \<Rightarrow> 'c CommandsRequest \<Rightarrow> 'c CommandsRequest" where
  "complete j rv self =
     (if j < length (running self)
      then self\<lparr>running := (running self)[j := (running self ! j)\<lparr>r := rv\<rparr>]\<rparr>
      else self)"

text \<open>
  Modelled from the spec: the completion callback of the control plane, which is not
  among the sources. The control plane completes the invocation at position \<open>j\<close> of
  \<open>running\<close> of the batch at position \<open>x\<close> of the registry with the result code \<open>rv\<close>
  and then notifies the module with the tag of that invocation.
\<close>

definition on_completion :: "'c mgr \<Rightarrow> nat \<Rightarrow> nat \<Rightarrow> int \<Rightarrow> 'c Module \<Rightarrow> 'c Module" where
  "on_completion env x j rv self =
     (if x < length (requests self) \<and> j < length (running (requests self ! x))
      then notify env ''command'' (tag (running (requests self ! x) ! j))
             (self\<lparr>requests := (requests self)[x := complete j rv (requests self ! x)]\<rparr>)
      else self)"

text \<open>
  A history of one batch after its construction: calls of \<open>finish\<close> and \<open>next\<close>,
  interleaved with completions by the control plane. An exception of \<open>next\<close> goes to
  the caller; the object stays as the call left it.
\<close>

datatype call = Finish string | Next | Complete nat int

fun do_call :: "'c mgr \<Rightarrow> 'c CommandsRequest \<Rightarrow> call \<Rightarrow> 'c CommandsRequest" where
  "do_call env self (Finish tg) = snd (finish self tg)"
| "do_call env self Next = snd (next_stage env self)"
| "do_call env self (Complete j rv) = complete j rv self"

definition do_calls :: "'c mgr \<Rightarrow> 'c CommandsRequest \<Rightarrow> call list \<Rightarrow> 'c CommandsRequest" where
  "do_calls env self cs = foldl (do_call env) self cs"

text \<open>
  The exception that a call of a history raises, if any (only \<open>next\<close> can raise), and
  the exceptions raised along a history, in order.
\<close>

fun call_exn :: "'c mgr \<Rightarrow> 'c CommandsRequest \<Rightarrow> call \<Rightarrow> exn option" where
  "call_exn env self (Finish tg) = None"
| "call_exn env self Next = fst (next_stage env self)"
| "call_exn env self (Complete j rv) = None"

fun raised :: "'c mgr \<Rightarrow> 'c CommandsRequest \<Rightarrow> call list \<Rightarrow> exn list" where
  "raised env self [] = []"
| "raised env self (c # cs) =
     (case call_exn env self c of None \<Rightarrow> [] | Some e \<Rightarrow> [e]) @ raised env (do_call env self c) cs"

text \<open>The command payloads a batch tracks, with multiplicity.\<close>

definition tracked :: "'c CommandsRequest \<Rightarrow> 'c multiset" where
  "tracked self =
     mset (map command (running self)) + mset (map command (finished self))
       + mset (map command (failed self)) + mset (concat (waiting self))"

subsection \<open>Managers used in the scenarios\<close>

definition sends_all :: "'c \<Rightarrow> string \<Rightarrow> bool" where
  "sends_all c t = True"

definition refuses :: "'c \<Rightarrow> 'c \<Rightarrow> string \<Rightarrow> bool" where
  "refuses c0 c t = (c \<noteq> c0)"

definition mgr_ok :: "'c mgr" where
  "mgr_ok = \<lparr>send_command = sends_all, result_r = 0\<rparr>"

definition mgr_refusing :: "'c \<Rightarrow> 'c mgr" where
  "mgr_refusing c0 = \<lparr>send_command = refuses c0, result_r = 0\<rparr>"

subsection \<open>Notions used in the proofs\<close>

text \<open>The value of a decimal string, the inverse of \<open>str_nat\<close>.\<close>

definition digit_val :: "char \<Rightarrow> nat" where
  "digit_val c = of_char c - 48"

definition nat_of_str :: "string \<Rightarrow> nat" where
  "nat_of_str s = foldl (\<lambda>a c. 10 * a + digit_val c) 0 s"

text \<open>The tag and the invocation that \<open>run\<close> builds at index \<open>k\<close> of a stage.\<close>

definition tag_of :: "string \<Rightarrow> nat \<Rightarrow> string" where
  "tag_of uid index = uid @ '':'' @ str_nat index"

definition result_at :: "'c mgr \<Rightarrow> 'c list \<Rightarrow> string \<Rightarrow> nat \<Rightarrow> 'c CommandResult" where
  "result_at env commands uid =
     (\<lambda>k. \<lparr>tag = tag_of uid k, r = result_r env, command = commands ! k\<rparr>)"

text \<open>What \<open>finish\<close> does to the object once it has found the tag at index \<open>k\<close>.\<close>

definition move_out :: "nat \<Rightarrow> 'c CommandsRequest \<Rightarrow> 'c CommandsRequest" where
  "move_out k self =
     (if r (running self ! k) = 0
      then self\<lparr>running := pop k (running self), finished := finished self @ [running self ! k]\<rparr>
      else self\<lparr>running := pop k (running self), failed := failed self @ [running self ! k]\<rparr>)"

section \<open>Decimal strings and tags\<close>

lemma of_char_digit_char: "d < 10 \<Longrightarrow> of_char (digit_char d) = 48 + d"
  by (simp add: digit_char_def)

lemma nat_of_str_snoc: "nat_of_str (s @ [c]) = 10 * nat_of_str s + digit_val c"
  by (simp add: nat_of_str_def)

lemma digit_val_digit_char: "d < 10 \<Longrightarrow> digit_val (digit_char d) = d"
  by (simp add: digit_val_def of_char_digit_char)

lemma nat_of_str_str_nat: "nat_of_str (str_nat n) = n"
proof (induction n rule: str_nat.induct)
  case (1 n)
  show ?case
  proof (cases "n < 10")
    case True
    then show ?thesis
      by (simp add: str_nat.simps [of n] nat_of_str_def digit_val_digit_char)
  next
    case False
    with 1 have "nat_of_str (str_nat (n div 10)) = n div 10" by simp
    with False show ?thesis
      by (simp add: str_nat.simps [of n] nat_of_str_snoc digit_val_digit_char)
  qed
qed

lemma str_nat_inj: "str_nat a = str_nat b \<Longrightarrow> a = b"
  by (metis nat_of_str_str_nat)

lemma digit_char_not_colon: "d < 10 \<Longrightarrow> digit_char d \<noteq> CHR '':''"
proof
  assume d: "d < 10" and "digit_char d = CHR '':''"
  then have "(of_char (digit_char d) :: nat) = of_char (CHR '':'')" by simp
  with d show False by (simp add: of_char_digit_char)
qed

lemma colon_notin_str_nat: "CHR '':'' \<notin> set (str_nat n)"
proof (induction n rule: str_nat.induct)
  case (1 n)
  show ?case
  proof (cases "n < 10")
    case True
    then show ?thesis
      using digit_char_not_colon [of n] by (auto simp add: str_nat.simps [of n])
  next
    case False
    with 1 have "CHR '':'' \<notin> set (str_nat (n div 10))" by simp
    moreover have "digit_char (n mod 10) \<noteq> CHR '':''"
      by (rule digit_char_not_colon) simp
    ultimately show ?thesis using False
      by (auto simp add: str_nat.simps [of n])
  qed
qed

lemma split_at_sep:
  "c \<notin> set xs \<Longrightarrow> c \<notin> set xs' \<Longrightarrow> xs @ c # ys = xs' @ c # ys' \<Longrightarrow> xs = xs' \<and> ys = ys'"
proof (induction xs arbitrary: xs')
  case Nil
  then show ?case by (cases xs') auto
next
  case (Cons x xs)
  then show ?case by (cases xs') auto
qed

lemma tag_of_eq_iff:
  "tag_of (str_nat a) i = tag_of (str_nat b) j \<longleftrightarrow> a = b \<and> i = j"
proof
  assume "tag_of (str_nat a) i = tag_of (str_nat b) j"
  then have "str_nat a @ CHR '':'' # str_nat i = str_nat b @ CHR '':'' # str_nat j"
    by (simp add: tag_of_def)
  then have "str_nat a = str_nat b \<and> str_nat i = str_nat j"
    by (rule split_at_sep [OF colon_notin_str_nat colon_notin_str_nat])
  then show "a = b \<and> i = j" by (auto dest: str_nat_inj)
qed simp

section \<open>The dispatch loop\<close>

lemma run_from_cases:
  "run_from env commands uid i acc = Inl SendFailed \<or>
   run_from env commands uid i acc = Inr (acc @ map (result_at env commands uid) [i..<length commands])"
proof (induction env commands uid i acc rule: run_from.induct)
  case (1 env commands uid index results)
  show ?case
  proof (cases "index < length commands")
    case False
    then show ?thesis by (simp add: run_from.simps [of env commands uid index])
  next
    case True
    note lt = this
    show ?thesis
    proof (cases "send_command env (commands ! index) (uid @ '':'' @ str_nat index)")
      case False
      with lt show ?thesis
        by (simp add: run_from.simps [of env commands uid index] Let_def)
    next
      case True
      have step: "run_from env commands uid index results =
          run_from env commands uid (Suc index)
            (results @ [result_at env commands uid index])"
        using lt True
        by (simp add: run_from.simps [of env commands uid index] Let_def result_at_def tag_of_def)
      have ih: "run_from env commands uid (Suc index) (results @ [result_at env commands uid index]) = Inl SendFailed \<or>
         run_from env commands uid (Suc index) (results @ [result_at env commands uid index])
           = Inr ((results @ [result_at env commands uid index]) @ map (result_at env commands uid) [Suc index..<length commands])"
        using 1 [OF lt refl refl True] by (simp add: result_at_def tag_of_def)
      have "[index..<length commands] = index # [Suc index..<length commands]"
        using lt by (simp add: upt_conv_Cons)
      with step ih show ?thesis by auto
    qed
  qed
qed

lemma run_from_ok:
  "\<forall>k. i \<le> k \<and> k < length commands \<longrightarrow> send_command env (commands ! k) (tag_of uid k) \<Longrightarrow>
   run_from env commands uid i acc = Inr (acc @ map (result_at env commands uid) [i..<length commands])"
proof (induction env commands uid i acc rule: run_from.induct)
  case (1 env commands uid index results)
  show ?case
  proof (cases "index < length commands")
    case False
    then show ?thesis by (simp add: run_from.simps [of env commands uid index])
  next
    case True
    note lt = this
    have snd: "send_command env (commands ! index) (uid @ '':'' @ str_nat index)"
      using 1(2) lt by (simp add: tag_of_def)
    have step: "run_from env commands uid index results =
          run_from env commands uid (Suc index)
            (results @ [result_at env commands uid index])"
      using lt snd
      by (simp add: run_from.simps [of env commands uid index] Let_def result_at_def tag_of_def)
    have "run_from env commands uid (Suc index) (results @ [result_at env commands uid index])
           = Inr ((results @ [result_at env commands uid index]) @ map (result_at env commands uid) [Suc index..<length commands])"
      using 1(1) [OF lt refl refl snd] 1(2) by (simp add: result_at_def tag_of_def)
    moreover have "[index..<length commands] = index # [Suc index..<length commands]"
      using lt by (simp add: upt_conv_Cons)
    ultimately show ?thesis using step by simp
  qed
qed

lemma run_cases:
  "run env commands uid = Inl SendFailed \<or>
   run env commands uid = Inr (map (result_at env commands uid) [0..<length commands])"
  using run_from_cases [of env commands uid 0 "[]"] by (simp add: run_def)

lemma run_ok:
  "\<forall>k<length commands. send_command env (commands ! k) (tag_of uid k) \<Longrightarrow>
   run env commands uid = Inr (map (result_at env commands uid) [0..<length commands])"
  using run_from_ok [of 0 commands env uid "[]"] by (simp add: run_def)

lemma run_Inr:
  assumes "run env commands uid = Inr results"
  shows "results = map (result_at env commands uid) [0..<length commands]"
  using assms run_cases [of env commands uid] by auto

lemma run_commands: "run env commands uid = Inr results \<Longrightarrow> map command results = commands"
  by (auto dest!: run_Inr simp add: result_at_def comp_def map_nth)

lemma run_nth:
  "run env commands uid = Inr results \<Longrightarrow>
   length results = length commands \<and> (\<forall>i<length commands. results ! i = result_at env commands uid i)"
  by (auto dest!: run_Inr)

section \<open>Completion of an invocation\<close>

lemma finish_from_miss:
  "\<forall>j. i \<le> j \<and> j < length (running self) \<longrightarrow> tag (running self ! j) \<noteq> tg \<Longrightarrow>
   finish_from i self tg = (False, self)"
proof (induction i self tg rule: finish_from.induct)
  case (1 index self tg)
  show ?case
  proof (cases "index < length (running self)")
    case False
    then show ?thesis by (simp add: finish_from.simps [of index])
  next
    case True
    with "1.prems" have ne: "tag (running self ! index) \<noteq> tg" by simp
    have "finish_from (Suc index) self tg = (False, self)"
      using "1.IH" [OF True ne] "1.prems" by simp
    with True ne show ?thesis by (simp add: finish_from.simps [of index])
  qed
qed

lemma finish_from_hit:
  "i \<le> k \<Longrightarrow> k < length (running self) \<Longrightarrow> tag (running self ! k) = tg \<Longrightarrow>
   \<forall>j. i \<le> j \<and> j < k \<longrightarrow> tag (running self ! j) \<noteq> tg \<Longrightarrow>
   finish_from i self tg = (True, move_out k self)"
proof (induction i self tg rule: finish_from.induct)
  case (1 index self tg)
  from "1.prems" have lt: "index < length (running self)" by simp
  show ?case
  proof (cases "index = k")
    case True
    from "1.prems"(2,3) have "finish_from k self tg = (True, move_out k self)"
      by (simp add: finish_from.simps [of k] move_out_def)
    with True show ?thesis by simp
  next
    case False
    with "1.prems" have less: "index < k" by simp
    with "1.prems" have ne: "tag (running self ! index) \<noteq> tg" by simp
    have "finish_from (Suc index) self tg = (True, move_out k self)"
      using "1.IH" [OF lt ne] less "1.prems" by simp
    with lt ne show ?thesis by (simp add: finish_from.simps [of index])
  qed
qed

lemma first_index:
  assumes "x \<in> set xs"
  shows "\<exists>k<length xs. xs ! k = x \<and> (\<forall>j<k. xs ! j \<noteq> x)"
proof -
  from assms obtain i where i: "i < length xs \<and> xs ! i = x"
    by (auto simp add: in_set_conv_nth)
  define k where "k = (LEAST i. i < length xs \<and> xs ! i = x)"
  have "k < length xs \<and> xs ! k = x"
    unfolding k_def using i by (rule LeastI)
  moreover have "\<forall>j<k. xs ! j \<noteq> x"
  proof (intro allI impI notI)
    fix j assume "j < k" and "xs ! j = x"
    with \<open>k < length xs \<and> xs ! k = x\<close> have "j < length xs \<and> xs ! j = x" by simp
    then have "k \<le> j" unfolding k_def by (rule Least_le)
    with \<open>j < k\<close> show False by simp
  qed
  ultimately show ?thesis by blast
qed

lemma finish_not_running: "\<not> is_running self tg \<Longrightarrow> finish self tg = (False, self)"
  unfolding finish_def is_running_def
  by (rule finish_from_miss) auto

lemma finish_running:
  assumes "is_running self tg"
  shows "\<exists>k<length (running self). tag (running self ! k) = tg
           \<and> (\<forall>j<k. tag (running self ! j) \<noteq> tg)
           \<and> finish self tg = (True, move_out k self)"
proof -
  from assms have "tg \<in> set (map tag (running self))" by (simp add: is_running_def)
  from first_index [OF this]
  obtain k where k: "k < length (running self)" "tag (running self ! k) = tg"
    "\<forall>j<k. tag (running self ! j) \<noteq> tg"
    by auto
  then have "finish self tg = (True, move_out k self)"
    unfolding finish_def by (intro finish_from_hit) auto
  with k show ?thesis by blast
qed

lemma finish_cases:
  "finish self tg = (False, self) \<or>
   (\<exists>k<length (running self). finish self tg = (True, move_out k self))"
  using finish_not_running [of self tg] finish_running [of self tg] by blast

section \<open>The tracked commands\<close>

lemma mset_pop: "k < length xs \<Longrightarrow> mset (pop k xs) + {#xs ! k#} = mset xs"
proof -
  assume "k < length xs"
  then have "xs = take k xs @ xs ! k # drop (Suc k) xs" by (rule id_take_nth_drop)
  then have "mset xs = mset (take k xs @ xs ! k # drop (Suc k) xs)" by simp
  then show ?thesis by (simp add: pop_def)
qed

lemma mset_map_pop:
  "k < length xs \<Longrightarrow> mset (map f (pop k xs)) + {#f (xs ! k)#} = mset (map f xs)"
proof -
  assume k: "k < length xs"
  have "mset (map f (pop k xs)) + {#f (xs ! k)#} = image_mset f (mset (pop k xs) + {#xs ! k#})"
    by simp
  also have "\<dots> = image_mset f (mset xs)" using k by (simp only: mset_pop)
  finally show ?thesis by simp
qed

lemma tracked_move_out: "k < length (running self) \<Longrightarrow> tracked (move_out k self) = tracked self"
  using mset_map_pop [of k "running self" command]
  by (auto simp add: tracked_def move_out_def ac_simps)

lemma tracked_finish: "tracked (snd (finish self tg)) = tracked self"
  using finish_cases [of self tg] by (auto simp add: tracked_move_out)

lemma tracked_complete: "tracked (complete j rv self) = tracked self"
proof (cases "j < length (running self)")
  case True
  then have "map command ((running self)[j := (running self ! j)\<lparr>r := rv\<rparr>]) = map command (running self)"
    by (simp add: map_update list_update_same_conv)
  then have "mset (map command ((running self)[j := (running self ! j)\<lparr>r := rv\<rparr>]))
      = mset (map command (running self))"
    by (rule arg_cong)
  then show ?thesis by (simp add: tracked_def complete_def del: mset_map)
next
  case False
  then show ?thesis by (simp add: complete_def)
qed

lemma tracked_next_stage:
  assumes "fst (next_stage env self) = None"
  shows "tracked (snd (next_stage env self)) = tracked self"
proof (cases "waiting self")
  case Nil
  then show ?thesis by (simp add: next_stage_def)
next
  case (Cons commands rest)
  show ?thesis
  proof (cases "run env commands (uuid self)")
    case (Inl e)
    with Cons assms show ?thesis by (simp add: next_stage_def)
  next
    case (Inr results)
    then have "map command results = commands" by (rule run_commands)
    with Cons Inr show ?thesis
      by (simp add: next_stage_def tracked_def)
  qed
qed

lemma run_Nil: "run env [] uid = Inr []"
  by (simp add: run_def run_from.simps [of env "[]"])

lemma tracked_next_stage_raise:
  assumes "fst (next_stage env self) = Some e"
  shows "\<exists>commands. commands \<noteq> [] \<and> tracked self = tracked (snd (next_stage env self)) + mset commands"
proof (cases "waiting self")
  case Nil
  with assms show ?thesis by (simp add: next_stage_def)
next
  case (Cons commands rest)
  show ?thesis
  proof (cases "run env commands (uuid self)")
    case (Inr results)
    with Cons assms show ?thesis by (simp add: next_stage_def)
  next
    case (Inl e')
    then have "commands \<noteq> []" using run_Nil [of env "uuid self"] by auto
    moreover from Cons Inl
    have "tracked self = tracked (snd (next_stage env self)) + mset commands"
      by (simp add: next_stage_def tracked_def)
    ultimately show ?thesis by blast
  qed
qed

lemma tracked_do_call_keep:
  "call_exn env self c = None \<Longrightarrow> tracked (do_call env self c) = tracked self"
  by (cases c) (simp_all add: tracked_finish tracked_complete tracked_next_stage)

lemma tracked_do_call_drop:
  assumes "call_exn env self c = Some e"
  shows "tracked (do_call env self c) \<subset># tracked self"
proof (cases c)
  case Next
  with assms have "fst (next_stage env self) = Some e" by simp
  from tracked_next_stage_raise [OF this]
  obtain commands where "commands \<noteq> []"
    "tracked self = tracked (snd (next_stage env self)) + mset commands"
    by blast
  with Next show ?thesis by (simp add: subset_mset_def)
qed (use assms in simp_all)

lemma tracked_do_call_le: "tracked (do_call env self c) \<subseteq># tracked self"
proof (cases "call_exn env self c")
  case None
  then show ?thesis by (simp add: tracked_do_call_keep)
next
  case (Some e)
  then have "tracked (do_call env self c) \<subset># tracked self" by (rule tracked_do_call_drop)
  then show ?thesis by (rule subset_mset.less_imp_le)
qed

lemma do_calls_Cons: "do_calls env self (c # cs) = do_calls env (do_call env self c) cs"
  by (simp add: do_calls_def)

lemma tracked_do_calls_le: "tracked (do_calls env self cs) \<subseteq># tracked self"
proof (induction cs arbitrary: self)
  case Nil
  show ?case by (simp add: do_calls_def)
next
  case (Cons c cs)
  have "tracked (do_calls env (do_call env self c) cs) \<subseteq># tracked (do_call env self c)"
    by (rule Cons.IH)
  also have "\<dots> \<subseteq># tracked self" by (rule tracked_do_call_le)
  finally show ?case by (simp add: do_calls_Cons)
qed

lemma tracked_do_calls_eq_iff:
  "tracked (do_calls env self cs) = tracked self \<longleftrightarrow> raised env self cs = []"
proof (induction cs arbitrary: self)
  case Nil
  show ?case by (simp add: do_calls_def)
next
  case (Cons c cs)
  let ?s1 = "do_call env self c"
  have le1: "tracked (do_calls env ?s1 cs) \<subseteq># tracked ?s1" by (rule tracked_do_calls_le)
  show ?case
  proof (cases "call_exn env self c")
    case None
    then have "tracked ?s1 = tracked self" by (rule tracked_do_call_keep)
    with None Cons.IH [of ?s1] show ?thesis by (simp add: do_calls_Cons)
  next
    case (Some e)
    then have "tracked ?s1 \<subset># tracked self" by (rule tracked_do_call_drop)
    with le1 have "tracked (do_calls env ?s1 cs) \<subset># tracked self"
      by (rule subset_mset.le_less_trans)
    then have "tracked (do_calls env ?s1 cs) \<noteq> tracked self" by simp
    with Some show ?thesis by (simp add: do_calls_Cons)
  qed
qed

lemma init_request_tracked:
  assumes "init_request env self_id commands_arrays = (entries, Inr b)"
  shows "tracked b = mset (concat commands_arrays)"
proof (cases commands_arrays)
  case Nil
  with assms show ?thesis by (auto simp add: init_request_def tracked_def)
next
  case (Cons commands rest)
  show ?thesis
  proof (cases "run env commands (str_nat self_id)")
    case (Inl e)
    with Cons assms show ?thesis by (simp add: init_request_def)
  next
    case (Inr results)
    then have "map command results = commands" by (rule run_commands)
    then have "mset (map command results) = mset commands" by simp
    with Inr Cons assms show ?thesis
      by (auto simp add: init_request_def tracked_def simp del: mset_map)
  qed
qed

lemma next_stage_effect:
  "(waiting self = [] \<longrightarrow> next_stage env self = (None, self))
   \<and> (waiting self \<noteq> [] \<longrightarrow>
        waiting (snd (next_stage env self)) = tl (waiting self)
      \<and> finished (snd (next_stage env self)) = finished self
      \<and> failed (snd (next_stage env self)) = failed self
      \<and> uuid (snd (next_stage env self)) = uuid self
      \<and> (fst (next_stage env self) = None \<longrightarrow>
            (\<exists>results. running (snd (next_stage env self)) = running self @ results
               \<and> map command results = hd (waiting self)))
      \<and> (fst (next_stage env self) \<noteq> None \<longrightarrow>
            running (snd (next_stage env self)) = running self)
      \<and> ((\<forall>k<length (hd (waiting self)).
             send_command env (hd (waiting self) ! k) (uuid self @ '':'' @ str_nat k))
           \<longrightarrow> fst (next_stage env self) = None))"
proof (cases "waiting self")
  case Nil
  then show ?thesis by (simp add: next_stage_def)
next
  case (Cons commands rest)
  show ?thesis
  proof (cases "run env commands (uuid self)")
    case (Inl e)
    have "\<not> (\<forall>k<length commands. send_command env (commands ! k) (uuid self @ '':'' @ str_nat k))"
    proof
      assume "\<forall>k<length commands. send_command env (commands ! k) (uuid self @ '':'' @ str_nat k)"
      then have "run env commands (uuid self)
          = Inr (map (result_at env commands (uuid self)) [0..<length commands])"
        by (intro run_ok) (simp add: tag_of_def)
      with Inl show False by simp
    qed
    with Cons Inl show ?thesis by (simp add: next_stage_def)
  next
    case (Inr results)
    then have "map command results = commands" by (rule run_commands)
    with Cons Inr show ?thesis by (simp add: next_stage_def)
  qed
qed

section \<open>Positions selected by a filter\<close>

lemma filter_positions:
  "map ((!) xs) (filter (\<lambda>x. P (xs ! x)) [0..<length xs]) = filter P xs"
proof -
  have "filter P (map ((!) xs) [0..<length xs]) = map ((!) xs) (filter (P \<circ> (!) xs) [0..<length xs])"
    by (rule filter_map)
  then show ?thesis by (simp add: map_nth comp_def)
qed

lemma length_filter_positions:
  "length (filter (\<lambda>x. P (xs ! x)) [0..<length xs]) = length (filter P xs)"
proof -
  have "length (map ((!) xs) (filter (\<lambda>x. P (xs ! x)) [0..<length xs])) = length (filter P xs)"
    by (simp only: filter_positions)
  then show ?thesis by simp
qed

lemma single_position:
  assumes "length (filter Q [0..<n]) = 1"
  shows "\<exists>x<n. filter Q [0..<n] = [x] \<and> Q x \<and> (\<forall>y<n. y \<noteq> x \<longrightarrow> \<not> Q y)"
proof -
  from assms obtain x where x: "filter Q [0..<n] = [x]"
    by (cases "filter Q [0..<n]") auto
  then have mem: "set (filter Q [0..<n]) = {x}" by simp
  then have "x < n \<and> Q x" by auto
  moreover have "\<forall>y<n. y \<noteq> x \<longrightarrow> \<not> Q y"
  proof (intro allI impI notI)
    fix y assume "y < n" "y \<noteq> x" "Q y"
    then have "y \<in> set (filter Q [0..<n])" by simp
    with mem \<open>y \<noteq> x\<close> show False by simp
  qed
  ultimately show ?thesis using x by blast
qed

section \<open>When the router advances a batch\<close>

lemma notify_inner_advances:
  "requests (snd (notify_inner env notify_type tg inst)) = requests inst
   \<or> (\<exists>x<length (requests inst).
          (requests (snd (notify_inner env notify_type tg inst))
              = (requests inst)[x := snd (finish (requests inst ! x) tg)]
            \<and> \<not> (running (snd (finish (requests inst ! x) tg)) = []
                  \<and> waiting (snd (finish (requests inst ! x) tg)) \<noteq> []))
        \<or> (requests (snd (notify_inner env notify_type tg inst))
              = (requests inst)[x := snd (next_stage env (snd (finish (requests inst ! x) tg)))]
            \<and> running (snd (finish (requests inst ! x) tg)) = []
            \<and> waiting (snd (finish (requests inst ! x) tg)) \<noteq> []))"
proof (cases "notify_type = ''command''
    \<and> length (filter (\<lambda>x. is_running (requests inst ! x) tg) [0..<length (requests inst)]) = 1")
  case False
  then have "requests (snd (notify_inner env notify_type tg inst)) = requests inst"
    by (auto simp add: notify_inner_def Let_def)
  then show ?thesis by blast
next
  case True
  then have one: "length (filter (\<lambda>x. is_running (requests inst ! x) tg) [0..<length (requests inst)]) = 1"
    by simp
  from single_position [OF one]
  obtain x where x: "x < length (requests inst)"
    "filter (\<lambda>x. is_running (requests inst ! x) tg) [0..<length (requests inst)] = [x]"
    by blast
  let ?b1 = "snd (finish (requests inst ! x) tg)"
  show ?thesis
  proof (cases "is_ready ?b1")
    case False
    with True x(2)
    have "requests (snd (notify_inner env notify_type tg inst)) = (requests inst)[x := ?b1]"
      by (simp add: notify_inner_def Let_def)
    moreover from False have "\<not> (running ?b1 = [] \<and> waiting ?b1 \<noteq> [])"
      by (simp add: is_ready_def)
    ultimately show ?thesis using x(1) by blast
  next
    case ready: True
    with True x(2)
    have "requests (snd (notify_inner env notify_type tg inst))
        = (requests inst)[x := snd (next_stage env ?b1)]"
      by (simp add: notify_inner_def Let_def split: prod.splits)
    moreover from ready have "running ?b1 = [] \<and> waiting ?b1 \<noteq> []"
      by (simp add: is_ready_def)
    ultimately show ?thesis using x(1) by blast
  qed
qed

section \<open>The claims\<close>

subsection \<open>C1: uniqueness of tags\<close>

text \<open>
  C1, as stated, fails. A batch submitted as two stages of one command each, with the
  object id 7: the constructor tags the command of the first stage \<open>7:0\<close>; after its
  completion \<open>next\<close> dispatches the second stage and tags its command \<open>7:0\<close> again,
  since the index of a tag restarts at 0 in every stage.
\<close>

theorem tag_reuse_counterexample:
  "init_request (mgr_ok :: nat mgr) 7 [[0], [1]]
     = ([], Inr \<lparr>uuid = ''7'', running = [\<lparr>tag = ''7:0'', r = 0, command = 0\<rparr>],
                 waiting = [[1]], finished = [], failed = []\<rparr>)
   \<and> finish \<lparr>uuid = ''7'', running = [\<lparr>tag = ''7:0'', r = 0, command = 0::nat\<rparr>],
              waiting = [[1]], finished = [], failed = []\<rparr> ''7:0''
     = (True, \<lparr>uuid = ''7'', running = [], waiting = [[1]],
               finished = [\<lparr>tag = ''7:0'', r = 0, command = 0\<rparr>], failed = []\<rparr>)
   \<and> next_stage mgr_ok \<lparr>uuid = ''7'', running = [], waiting = [[1::nat]],
               finished = [\<lparr>tag = ''7:0'', r = 0, command = 0\<rparr>], failed = []\<rparr>
     = (None, \<lparr>uuid = ''7'', running = [\<lparr>tag = ''7:0'', r = 0, command = 1\<rparr>], waiting = [],
               finished = [\<lparr>tag = ''7:0'', r = 0, command = 0\<rparr>], failed = []\<rparr>)"
  by code_simp

text \<open>
  C1, amended: the tag of an invocation is the decimal id of its batch, a colon and its
  index in its stage, so two dispatched invocations carry the same tag exactly when their
  batches have the same id and they stand at the same index of their stages. Tags are
  unique within a dispatched stage and between batches of different ids; the invocations
  at one index of two stages of the same batch share their tag.
\<close>

theorem tags_equal_iff:
  assumes "run env commands (str_nat a) = Inr results"
    and "run env' commands' (str_nat b) = Inr results'"
    and "i < length results" and "j < length results'"
  shows "tag (results ! i) = str_nat a @ '':'' @ str_nat i
       \<and> (tag (results ! i) = tag (results' ! j) \<longleftrightarrow> a = b \<and> i = j)"
proof -
  from run_nth [OF assms(1)] assms(3)
  have ti: "tag (results ! i) = tag_of (str_nat a) i" by (simp add: result_at_def)
  from run_nth [OF assms(2)] assms(4)
  have tj: "tag (results' ! j) = tag_of (str_nat b) j" by (simp add: result_at_def)
  from ti tj show ?thesis by (simp add: tag_of_eq_iff) (simp add: tag_of_def)
qed

theorem tags_equal_iff_witness:
  "run (mgr_ok :: nat mgr) [0, 1] (str_nat 7)
     = Inr [\<lparr>tag = ''7:0'', r = 0, command = 0\<rparr>, \<lparr>tag = ''7:1'', r = 0, command = 1\<rparr>]
   \<and> run (mgr_ok :: nat mgr) [1] (str_nat 7) = Inr [\<lparr>tag = ''7:0'', r = 0, command = 1\<rparr>]
   \<and> tag ([\<lparr>tag = ''7:0'', r = 0, command = 0::nat\<rparr>, \<lparr>tag = ''7:1'', r = 0, command = 1\<rparr>] ! 1)
       \<noteq> tag ([\<lparr>tag = ''7:0'', r = 0, command = 1::nat\<rparr>] ! 0)"
proof -
  have h1: "run (mgr_ok :: nat mgr) [0, 1] (str_nat 7)
     = Inr [\<lparr>tag = ''7:0'', r = 0, command = 0\<rparr>, \<lparr>tag = ''7:1'', r = 0, command = 1\<rparr>]"
    by code_simp
  have h2: "run (mgr_ok :: nat mgr) [1] (str_nat 7) = Inr [\<lparr>tag = ''7:0'', r = 0, command = 1\<rparr>]"
    by code_simp
  have "tag ([\<lparr>tag = ''7:0'', r = 0, command = 0::nat\<rparr>, \<lparr>tag = ''7:1'', r = 0, command = 1\<rparr>] ! 1)
       \<noteq> tag ([\<lparr>tag = ''7:0'', r = 0, command = 1::nat\<rparr>] ! 0)"
    using tags_equal_iff [OF h1 h2, of 1 0, THEN conjunct2] by simp
  with h1 h2 show ?thesis by blast
qed

subsection \<open>C2: a dispatch that raises inside the constructor\<close>

text \<open>
  C2 does not hold of the code. With a manager whose \<open>send_command\<close> raises on the
  first command of the first stage, the constructor logs the error and then raises
  \<open>UnboundLocalError\<close> at \<open>self.running.extend(results)\<close>; it does not return, and
  \<open>submit_request\<close> registers no batch.
\<close>

theorem init_request_dispatch_raises:
  "init_request (mgr_refusing 0 :: nat mgr) 7 [[0], [1]] = ([LogError SendFailed], Inl UnboundLocalError)
   \<and> submit_request (mgr_refusing 0 :: nat mgr) 7 [[0], [1]] \<lparr>requests = [], logged = []\<rparr>
       = (Inl UnboundLocalError, \<lparr>requests = [], logged = [LogError SendFailed]\<rparr>)"
  by code_simp

subsection \<open>C3: when next dispatches\<close>

text \<open>
  C3, as stated, fails. On a batch whose \<open>running\<close> and \<open>waiting\<close> are both non-empty
  (the state the constructor leaves for two stages) \<open>is_ready\<close> is false, and \<open>next\<close>
  dispatches the waiting stage all the same: \<open>running\<close> grows and \<open>waiting\<close> is emptied.
\<close>

theorem next_ignores_running_counterexample:
  "\<not> is_ready \<lparr>uuid = ''7'', running = [\<lparr>tag = ''7:0'', r = 0, command = 0::nat\<rparr>],
                 waiting = [[1]], finished = [], failed = []\<rparr>
   \<and> next_stage mgr_ok \<lparr>uuid = ''7'', running = [\<lparr>tag = ''7:0'', r = 0, command = 0::nat\<rparr>],
                 waiting = [[1]], finished = [], failed = []\<rparr>
     = (None, \<lparr>uuid = ''7'', running = [\<lparr>tag = ''7:0'', r = 0, command = 0\<rparr>,
                                          \<lparr>tag = ''7:0'', r = 0, command = 1\<rparr>],
               waiting = [], finished = [], failed = []\<rparr>)"
  by code_simp

text \<open>
  C3, amended: \<open>next\<close> looks at \<open>waiting\<close> only. With \<open>waiting\<close> empty it is a no-op.
  With \<open>waiting\<close> non-empty it removes the head of \<open>waiting\<close>, whatever \<open>running\<close> holds,
  and leaves \<open>finished\<close> and \<open>failed\<close> unchanged; when the dispatch returns, one invocation
  per command of that stage is appended to \<open>running\<close>, in order, and when the dispatch
  raises, \<open>running\<close> is unchanged. The dispatch returns when every send of the stage
  does. That \<open>running\<close> is empty is checked by the caller: \<open>is_ready\<close> holds exactly
  when \<open>running\<close> is empty and \<open>waiting\<close> is not, and a notification either leaves the
  registry as it is, or applies the completion to one batch that is then not ready and
  is not advanced, or applies it to one batch whose \<open>running\<close> is then empty and whose
  \<open>waiting\<close> is not, and calls \<open>next\<close> on that batch.
\<close>

theorem next_stage_spec:
  "(waiting self = [] \<longrightarrow> next_stage env self = (None, self))
   \<and> (waiting self \<noteq> [] \<longrightarrow>
        waiting (snd (next_stage env self)) = tl (waiting self)
      \<and> finished (snd (next_stage env self)) = finished self
      \<and> failed (snd (next_stage env self)) = failed self
      \<and> uuid (snd (next_stage env self)) = uuid self
      \<and> (fst (next_stage env self) = None \<longrightarrow>
            (\<exists>results. running (snd (next_stage env self)) = running self @ results
               \<and> map command results = hd (waiting self)))
      \<and> (fst (next_stage env self) \<noteq> None \<longrightarrow>
            running (snd (next_stage env self)) = running self)
      \<and> ((\<forall>k<length (hd (waiting self)).
             send_command env (hd (waiting self) ! k) (uuid self @ '':'' @ str_nat k))
           \<longrightarrow> fst (next_stage env self) = None))
   \<and> is_ready self = (running self = [] \<and> waiting self \<noteq> [])
   \<and> (requests (snd (notify_inner env notify_type tg inst)) = requests inst
   \<or> (\<exists>x<length (requests inst).
          (requests (snd (notify_inner env notify_type tg inst))
              = (requests inst)[x := snd (finish (requests inst ! x) tg)]
            \<and> \<not> (running (snd (finish (requests inst ! x) tg)) = []
                  \<and> waiting (snd (finish (requests inst ! x) tg)) \<noteq> []))
        \<or> (requests (snd (notify_inner env notify_type tg inst))
              = (requests inst)[x := snd (next_stage env (snd (finish (requests inst ! x) tg)))]
            \<and> running (snd (finish (requests inst ! x) tg)) = []
            \<and> waiting (snd (finish (requests inst ! x) tg)) \<noteq> [])))"
proof -
  note effect = next_stage_effect [of self env]
  have ready: "is_ready self = (running self = [] \<and> waiting self \<noteq> [])"
    by (simp add: is_ready_def)
  note router = notify_inner_advances [of env notify_type tg inst]
  from effect ready router show ?thesis by (intro conjI) blast+
qed

theorem next_stage_spec_witness:
  "waiting \<lparr>uuid = ''7'', running = [\<lparr>tag = ''7:0'', r = 0, command = 0::nat\<rparr>],
            waiting = [[1]], finished = [], failed = []\<rparr> \<noteq> []
   \<and> fst (next_stage mgr_ok \<lparr>uuid = ''7'', running = [\<lparr>tag = ''7:0'', r = 0, command = 0::nat\<rparr>],
            waiting = [[1]], finished = [], failed = []\<rparr>) = None
   \<and> waiting (snd (next_stage mgr_ok \<lparr>uuid = ''7'', running = [\<lparr>tag = ''7:0'', r = 0, command = 0::nat\<rparr>],
            waiting = [[1]], finished = [], failed = []\<rparr>)) = []
   \<and> \<not> is_ready \<lparr>uuid = ''7'', running = [\<lparr>tag = ''7:0'', r = 0, command = 0::nat\<rparr>],
            waiting = [[1]], finished = [], failed = []\<rparr>
   \<and> requests (snd (notify_inner mgr_ok ''command'' ''7:0''
        \<lparr>requests = [\<lparr>uuid = ''7'',
            running = [\<lparr>tag = ''7:0'', r = 0, command = 0::nat\<rparr>, \<lparr>tag = ''7:1'', r = 0, command = 1\<rparr>],
            waiting = [[2]], finished = [], failed = []\<rparr>],
          logged = []\<rparr>))
     = [\<lparr>uuid = ''7'', running = [\<lparr>tag = ''7:1'', r = 0, command = 1\<rparr>],
         waiting = [[2]], finished = [\<lparr>tag = ''7:0'', r = 0, command = 0\<rparr>], failed = []\<rparr>]"
proof -
  let ?b = "\<lparr>uuid = ''7'', running = [\<lparr>tag = ''7:0'', r = 0, command = 0::nat\<rparr>],
            waiting = [[1]], finished = [], failed = []\<rparr>"
  have sends: "\<forall>k<length (hd (waiting ?b)).
      send_command mgr_ok (hd (waiting ?b) ! k) (uuid ?b @ '':'' @ str_nat k)"
    by (simp add: mgr_ok_def sends_all_def)
  have nonempty: "waiting ?b \<noteq> []" by simp
  note spec = next_stage_spec [where self = ?b and env = mgr_ok and notify_type = "''command''"
      and tg = "''7:0''" and inst = "\<lparr>requests = [], logged = []\<rparr>"]
  from spec nonempty sends have a: "fst (next_stage mgr_ok ?b) = None" by blast
  from spec nonempty have "waiting (snd (next_stage mgr_ok ?b)) = tl (waiting ?b)" by blast
  then have b: "waiting (snd (next_stage mgr_ok ?b)) = []" by simp
  from spec have "is_ready ?b = (running ?b = [] \<and> waiting ?b \<noteq> [])" by blast
  then have c: "\<not> is_ready ?b" by simp
  have d: "requests (snd (notify_inner mgr_ok ''command'' ''7:0''
        \<lparr>requests = [\<lparr>uuid = ''7'',
            running = [\<lparr>tag = ''7:0'', r = 0, command = 0::nat\<rparr>, \<lparr>tag = ''7:1'', r = 0, command = 1\<rparr>],
            waiting = [[2]], finished = [], failed = []\<rparr>],
          logged = []\<rparr>))
     = [\<lparr>uuid = ''7'', running = [\<lparr>tag = ''7:1'', r = 0, command = 1\<rparr>],
         waiting = [[2]], finished = [\<lparr>tag = ''7:0'', r = 0, command = 0\<rparr>], failed = []\<rparr>]"
    by code_simp
  from nonempty a b c d show ?thesis by blast
qed

subsection \<open>C4: no command is duplicated or lost\<close>

text \<open>
  C4, as stated, fails. With a manager whose \<open>send_command\<close> raises on the command of
  the second stage, the batch of two stages is constructed, its first command completes,
  and \<open>next\<close> removes the second stage from \<open>waiting\<close> before the dispatch raises: the
  second command is then in none of \<open>running\<close>, \<open>finished\<close>, \<open>failed\<close> and \<open>waiting\<close>.
\<close>

theorem stage_lost_counterexample:
  "init_request (mgr_refusing 1 :: nat mgr) 7 [[0], [1]]
     = ([], Inr \<lparr>uuid = ''7'', running = [\<lparr>tag = ''7:0'', r = 0, command = 0\<rparr>],
                 waiting = [[1]], finished = [], failed = []\<rparr>)
   \<and> do_calls (mgr_refusing 1) \<lparr>uuid = ''7'', running = [\<lparr>tag = ''7:0'', r = 0, command = 0::nat\<rparr>],
                 waiting = [[1]], finished = [], failed = []\<rparr> [Finish ''7:0'', Next]
     = \<lparr>uuid = ''7'', running = [], waiting = [],
        finished = [\<lparr>tag = ''7:0'', r = 0, command = 0\<rparr>], failed = []\<rparr>
   \<and> tracked \<lparr>uuid = ''7'', running = [], waiting = [],
        finished = [\<lparr>tag = ''7:0'', r = 0, command = 0::nat\<rparr>], failed = []\<rparr> = {#0#}
   \<and> mset (concat [[0], [1::nat]]) \<noteq> {#0#}"
proof -
  have "init_request (mgr_refusing 1 :: nat mgr) 7 [[0], [1]]
     = ([], Inr \<lparr>uuid = ''7'', running = [\<lparr>tag = ''7:0'', r = 0, command = 0\<rparr>],
                 waiting = [[1]], finished = [], failed = []\<rparr>)"
    by code_simp
  moreover have "do_calls (mgr_refusing 1) \<lparr>uuid = ''7'', running = [\<lparr>tag = ''7:0'', r = 0, command = 0::nat\<rparr>],
                 waiting = [[1]], finished = [], failed = []\<rparr> [Finish ''7:0'', Next]
     = \<lparr>uuid = ''7'', running = [], waiting = [],
        finished = [\<lparr>tag = ''7:0'', r = 0, command = 0\<rparr>], failed = []\<rparr>"
    by code_simp
  moreover have "tracked \<lparr>uuid = ''7'', running = [], waiting = [],
        finished = [\<lparr>tag = ''7:0'', r = 0, command = 0::nat\<rparr>], failed = []\<rparr> = {#0#}"
    by (simp add: tracked_def)
  moreover have "mset (concat [[0], [1::nat]]) \<noteq> {#0#}"
    by simp
  ultimately show ?thesis by blast
qed

text \<open>
  C4, amended: for every manager and every batch that the constructor returns, after
  every sequence of calls of \<open>finish\<close> and \<open>next\<close> and of completions by the control
  plane, no command is duplicated: the commands held in \<open>running\<close>, \<open>finished\<close>,
  \<open>failed\<close> and the stages of \<open>waiting\<close> are, counted with multiplicity, among the
  commands submitted. They are exactly the commands submitted (none is lost) if and
  only if no call of \<open>next\<close> in the sequence has raised.
\<close>

theorem tracked_invariant:
  assumes "init_request env self_id commands_arrays = (entries, Inr b)"
  shows "tracked (do_calls env b cs) \<subseteq># mset (concat commands_arrays)
       \<and> (tracked (do_calls env b cs) = mset (concat commands_arrays) \<longleftrightarrow> raised env b cs = [])"
  using tracked_do_calls_le [of env b cs] tracked_do_calls_eq_iff [of env b cs]
    init_request_tracked [OF assms]
  by simp

theorem tracked_invariant_witness:
  "init_request (mgr_refusing 99 :: nat mgr) 7 [[0], [1]]
     = ([], Inr \<lparr>uuid = ''7'', running = [\<lparr>tag = ''7:0'', r = 0, command = 0\<rparr>],
                 waiting = [[1]], finished = [], failed = []\<rparr>)
   \<and> raised (mgr_refusing 99) \<lparr>uuid = ''7'', running = [\<lparr>tag = ''7:0'', r = 0, command = 0::nat\<rparr>],
                 waiting = [[1]], finished = [], failed = []\<rparr> [Complete 0 5, Finish ''7:0'', Next] = []
   \<and> tracked (do_calls (mgr_refusing 99) \<lparr>uuid = ''7'', running = [\<lparr>tag = ''7:0'', r = 0, command = 0::nat\<rparr>],
                 waiting = [[1]], finished = [], failed = []\<rparr> [Complete 0 5, Finish ''7:0'', Next])
       = mset (concat [[0], [1]])"
proof -
  have i: "init_request (mgr_refusing 99 :: nat mgr) 7 [[0], [1]]
     = ([], Inr \<lparr>uuid = ''7'', running = [\<lparr>tag = ''7:0'', r = 0, command = 0\<rparr>],
                 waiting = [[1]], finished = [], failed = []\<rparr>)"
    by code_simp
  have n: "raised (mgr_refusing 99) \<lparr>uuid = ''7'', running = [\<lparr>tag = ''7:0'', r = 0, command = 0::nat\<rparr>],
                 waiting = [[1]], finished = [], failed = []\<rparr> [Complete 0 5, Finish ''7:0'', Next] = []"
    by code_simp
  from tracked_invariant [OF i, of "[Complete 0 5, Finish ''7:0'', Next]"] i n
  show ?thesis by blast
qed

subsection \<open>C5: a failure does not stop the progression\<close>

lemma str_nat_0: "str_nat 0 = ''0''"
  by code_simp

lemma run_single:
  "send_command env c (uid @ '':0'') \<Longrightarrow>
   run env [c] uid = Inr [\<lparr>tag = uid @ '':0'', r = result_r env, command = c\<rparr>]"
  by (simp add: run_def run_from.simps [of env "[c]" uid 0] run_from.simps [of env "[c]" uid "Suc 0"]
      str_nat_0 Let_def)

lemma finish_single:
  "finish \<lparr>uuid = u, running = [\<lparr>tag = t, r = rv, command = c\<rparr>], waiting = w,
           finished = fi, failed = fa\<rparr> t
   = (True, if rv = 0
            then \<lparr>uuid = u, running = [], waiting = w,
                  finished = fi @ [\<lparr>tag = t, r = rv, command = c\<rparr>], failed = fa\<rparr>
            else \<lparr>uuid = u, running = [], waiting = w, finished = fi,
                  failed = fa @ [\<lparr>tag = t, r = rv, command = c\<rparr>]\<rparr>)"
  by (simp add: finish_def finish_from.simps [of 0] pop_def)

lemma requests_notify:
  "requests (notify env notify_type tg self) = requests (snd (notify_inner env notify_type tg self))"
  by (cases "notify_inner env notify_type tg self") (simp add: notify_def split: option.splits)

text \<open>
  C5: a batch is submitted as \<open>[[cmdA], [cmdB]]\<close> and both sends return. The batch is
  registered with \<open>running\<close> holding the invocation of \<open>cmdA\<close> and \<open>waiting = [[cmdB]]\<close>.
  When the control plane completes that invocation with a result code other than 0 and
  notifies the module, the invocation moves to \<open>failed\<close>, \<open>running\<close> is left empty and
  the next stage is dispatched at once: \<open>running\<close> holds the invocation of \<open>cmdB\<close> and
  \<open>waiting\<close> is empty. When \<open>cmdB\<close> is then completed with the result code 0,
  \<open>finished\<close> holds the invocation of \<open>cmdB\<close>, and the state of the batch is \<open>failed\<close>.
\<close>

theorem scenario_B:
  assumes "send_command env cmdA (str_nat self_id @ '':0'')"
    and "send_command env cmdB (str_nat self_id @ '':0'')"
    and "rA \<noteq> 0"
  shows "submit_request env self_id [[cmdA], [cmdB]] \<lparr>requests = [], logged = []\<rparr>
      = (Inr (str_nat self_id),
         \<lparr>requests = [\<lparr>uuid = str_nat self_id,
             running = [\<lparr>tag = str_nat self_id @ '':0'', r = result_r env, command = cmdA\<rparr>],
             waiting = [[cmdB]], finished = [], failed = []\<rparr>],
           logged = []\<rparr>)
    \<and> requests (on_completion env 0 0 rA
         \<lparr>requests = [\<lparr>uuid = str_nat self_id,
             running = [\<lparr>tag = str_nat self_id @ '':0'', r = result_r env, command = cmdA\<rparr>],
             waiting = [[cmdB]], finished = [], failed = []\<rparr>],
           logged = entries\<rparr>)
      = [\<lparr>uuid = str_nat self_id,
          running = [\<lparr>tag = str_nat self_id @ '':0'', r = result_r env, command = cmdB\<rparr>],
          waiting = [], finished = [],
          failed = [\<lparr>tag = str_nat self_id @ '':0'', r = rA, command = cmdA\<rparr>]\<rparr>]
    \<and> requests (on_completion env 0 0 0
         \<lparr>requests = [\<lparr>uuid = str_nat self_id,
             running = [\<lparr>tag = str_nat self_id @ '':0'', r = result_r env, command = cmdB\<rparr>],
             waiting = [], finished = [],
             failed = [\<lparr>tag = str_nat self_id @ '':0'', r = rA, command = cmdA\<rparr>]\<rparr>],
           logged = entries'\<rparr>)
      = [\<lparr>uuid = str_nat self_id, running = [], waiting = [],
          finished = [\<lparr>tag = str_nat self_id @ '':0'', r = 0, command = cmdB\<rparr>],
          failed = [\<lparr>tag = str_nat self_id @ '':0'', r = rA, command = cmdA\<rparr>]\<rparr>]
    \<and> get_state \<lparr>uuid = str_nat self_id, running = [], waiting = [],
          finished = [\<lparr>tag = str_nat self_id @ '':0'', r = 0, command = cmdB\<rparr>],
          failed = [\<lparr>tag = str_nat self_id @ '':0'', r = rA, command = cmdA\<rparr>]\<rparr> = ''failed''"
proof (intro conjI)
  show "submit_request env self_id [[cmdA], [cmdB]] \<lparr>requests = [], logged = []\<rparr>
      = (Inr (str_nat self_id),
         \<lparr>requests = [\<lparr>uuid = str_nat self_id,
             running = [\<lparr>tag = str_nat self_id @ '':0'', r = result_r env, command = cmdA\<rparr>],
             waiting = [[cmdB]], finished = [], failed = []\<rparr>],
           logged = []\<rparr>)"
    using assms(1) by (simp add: submit_request_def init_request_def run_single)
next
  show "requests (on_completion env 0 0 rA
         \<lparr>requests = [\<lparr>uuid = str_nat self_id,
             running = [\<lparr>tag = str_nat self_id @ '':0'', r = result_r env, command = cmdA\<rparr>],
             waiting = [[cmdB]], finished = [], failed = []\<rparr>],
           logged = entries\<rparr>)
      = [\<lparr>uuid = str_nat self_id,
          running = [\<lparr>tag = str_nat self_id @ '':0'', r = result_r env, command = cmdB\<rparr>],
          waiting = [], finished = [],
          failed = [\<lparr>tag = str_nat self_id @ '':0'', r = rA, command = cmdA\<rparr>]\<rparr>]"
    using assms(2,3)
    by (simp add: on_completion_def complete_def requests_notify notify_inner_def is_running_def
        finish_single is_ready_def next_stage_def run_single Let_def)
next
  show "requests (on_completion env 0 0 0
         \<lparr>requests = [\<lparr>uuid = str_nat self_id,
             running = [\<lparr>tag = str_nat self_id @ '':0'', r = result_r env, command = cmdB\<rparr>],
             waiting = [], finished = [],
             failed = [\<lparr>tag = str_nat self_id @ '':0'', r = rA, command = cmdA\<rparr>]\<rparr>],
           logged = entries'\<rparr>)
      = [\<lparr>uuid = str_nat self_id, running = [], waiting = [],
          finished = [\<lparr>tag = str_nat self_id @ '':0'', r = 0, command = cmdB\<rparr>],
          failed = [\<lparr>tag = str_nat self_id @ '':0'', r = rA, command = cmdA\<rparr>]\<rparr>]"
    by (simp add: on_completion_def complete_def requests_notify notify_inner_def is_running_def
        finish_single is_ready_def Let_def)
next
  show "get_state \<lparr>uuid = str_nat self_id, running = [], waiting = [],
          finished = [\<lparr>tag = str_nat self_id @ '':0'', r = 0, command = cmdB\<rparr>],
          failed = [\<lparr>tag = str_nat self_id @ '':0'', r = rA, command = cmdA\<rparr>]\<rparr> = ''failed''"
    by (simp add: get_state_def is_finished_def has_failed_def)
qed

theorem scenario_B_witness:
  "send_command (mgr_ok :: nat mgr) 0 (str_nat 7 @ '':0'')
   \<and> send_command (mgr_ok :: nat mgr) 1 (str_nat 7 @ '':0'')
   \<and> (-22 :: int) \<noteq> 0
   \<and> requests (on_completion (mgr_ok :: nat mgr) 0 0 (-22)
         \<lparr>requests = [\<lparr>uuid = str_nat 7,
             running = [\<lparr>tag = str_nat 7 @ '':0'', r = result_r (mgr_ok :: nat mgr), command = 0\<rparr>],
             waiting = [[1]], finished = [], failed = []\<rparr>],
           logged = []\<rparr>)
      = [\<lparr>uuid = str_nat 7,
          running = [\<lparr>tag = str_nat 7 @ '':0'', r = result_r (mgr_ok :: nat mgr), command = 1\<rparr>],
          waiting = [], finished = [],
          failed = [\<lparr>tag = str_nat 7 @ '':0'', r = -22, command = 0\<rparr>]\<rparr>]"
proof -
  have a: "send_command (mgr_ok :: nat mgr) 0 (str_nat 7 @ '':0'')"
    by (simp add: mgr_ok_def sends_all_def)
  have b: "send_command (mgr_ok :: nat mgr) 1 (str_nat 7 @ '':0'')"
    by (simp add: mgr_ok_def sends_all_def)
  have c: "(-22 :: int) \<noteq> 0" by simp
  from scenario_B [OF a b c, of "[]"] a b c show ?thesis by blast
qed

subsection \<open>C6: a finished batch stays finished\<close>

lemma finished_do_call: "is_finished self \<Longrightarrow> do_call env self c = self"
proof (cases c)
  case (Finish tg)
  assume "is_finished self"
  then have "\<not> is_running self tg" by (simp add: is_finished_def is_running_def)
  then have "finish self tg = (False, self)" by (rule finish_not_running)
  with Finish show ?thesis by simp
next
  case Next
  assume "is_finished self"
  with Next show ?thesis by (simp add: is_finished_def next_stage_def)
next
  case (Complete j rv)
  assume "is_finished self"
  with Complete show ?thesis by (simp add: is_finished_def complete_def)
qed

text \<open>
  C6: once \<open>is_finished\<close> holds (\<open>running\<close> and \<open>waiting\<close> both empty), it holds after
  every further sequence of calls of \<open>finish\<close> and \<open>next\<close> (and of completions by the
  control plane); the batch is indeed unchanged by them, so no stage appears and no
  invocation comes back into \<open>running\<close>.
\<close>

theorem finished_forever:
  "is_finished self \<Longrightarrow> is_finished (do_calls env self cs) \<and> do_calls env self cs = self"
proof -
  assume fin: "is_finished self"
  have "do_calls env self cs = self"
    unfolding do_calls_def using fin
    by (induction cs) (simp_all add: finished_do_call)
  with fin show ?thesis by simp
qed

theorem finished_forever_witness:
  "is_finished \<lparr>uuid = ''7'', running = [], waiting = [],
       finished = [\<lparr>tag = ''7:0'', r = 0, command = 0::nat\<rparr>], failed = []\<rparr>
   \<and> is_finished (do_calls mgr_ok \<lparr>uuid = ''7'', running = [], waiting = [],
       finished = [\<lparr>tag = ''7:0'', r = 0, command = 0::nat\<rparr>], failed = []\<rparr>
       [Finish ''7:0'', Next, Complete 0 1, Finish ''7:1'', Next])"
proof -
  have h: "is_finished \<lparr>uuid = ''7'', running = [], waiting = [],
       finished = [\<lparr>tag = ''7:0'', r = 0, command = 0::nat\<rparr>], failed = []\<rparr>"
    by (simp add: is_finished_def)
  from finished_forever [OF h, of mgr_ok "[Finish ''7:0'', Next, Complete 0 1, Finish ''7:1'', Next]"] h
  show ?thesis by blast
qed

subsection \<open>C7: the state of a batch\<close>

text \<open>
  C7: \<open>get_state\<close> returns \<open>success\<close> exactly when the batch is finished and \<open>failed\<close> is
  empty, \<open>failed\<close> exactly when it is finished and \<open>failed\<close> is non-empty, and \<open>pending\<close>
  exactly when it is not finished, where finished means that \<open>running\<close> and \<open>waiting\<close>
  are both empty. The batch constructed from the empty list of stages is finished at
  once, and its state is \<open>success\<close>.
\<close>

theorem get_state_spec:
  "(get_state self = ''success'') = (is_finished self \<and> failed self = [])
   \<and> (get_state self = ''failed'') = (is_finished self \<and> failed self \<noteq> [])
   \<and> (get_state self = ''pending'') = (\<not> is_finished self)
   \<and> is_finished self = (running self = [] \<and> waiting self = [])
   \<and> init_request env self_id [] = ([], Inr \<lparr>uuid = str_nat self_id, running = [], waiting = [],
                                            finished = [], failed = []\<rparr>)
   \<and> is_finished \<lparr>uuid = str_nat self_id, running = [], waiting = ([] :: 'a list list),
                  finished = [], failed = []\<rparr>
   \<and> get_state \<lparr>uuid = str_nat self_id, running = [], waiting = ([] :: 'a list list),
                  finished = [], failed = []\<rparr> = ''success''"
  by (auto simp add: get_state_def has_failed_def is_finished_def init_request_def)

theorem get_state_spec_witness:
  "get_state \<lparr>uuid = ''7'', running = [], waiting = ([] :: nat list list), finished = [],
       failed = [\<lparr>tag = ''7:0'', r = 1, command = 0\<rparr>]\<rparr> = ''failed''
   \<and> init_request (mgr_ok :: nat mgr) 7 [] = ([], Inr \<lparr>uuid = str_nat 7, running = [], waiting = [],
                                            finished = [], failed = []\<rparr>)"
proof -
  let ?b = "\<lparr>uuid = ''7'', running = [], waiting = ([] :: nat list list), finished = [],
       failed = [\<lparr>tag = ''7:0'', r = 1, command = 0\<rparr>]\<rparr>"
  have h: "is_finished ?b \<and> failed ?b \<noteq> []" by (simp add: is_finished_def)
  from get_state_spec [of ?b mgr_ok 7] h show ?thesis by blast
qed

subsection \<open>C8: applying a completion\<close>

text \<open>
  C8: for a tag that no invocation of \<open>running\<close> carries, \<open>finish\<close> returns \<open>False\<close> and
  leaves the batch unchanged. For a tag that is present, \<open>finish\<close> returns \<open>True\<close>,
  removes from \<open>running\<close> the one invocation that carries the tag (the first, at index
  \<open>k\<close>), and appends it to \<open>finished\<close> when its result code is 0 and to \<open>failed\<close>
  otherwise; the other list of the two and \<open>waiting\<close> are unchanged.
\<close>

theorem finish_spec:
  "(\<not> is_running self tg \<longrightarrow> finish self tg = (False, self))
   \<and> (is_running self tg \<longrightarrow>
        (\<exists>k<length (running self).
            tag (running self ! k) = tg
          \<and> (\<forall>j<k. tag (running self ! j) \<noteq> tg)
          \<and> fst (finish self tg) = True
          \<and> running (snd (finish self tg)) = take k (running self) @ drop (Suc k) (running self)
          \<and> waiting (snd (finish self tg)) = waiting self
          \<and> uuid (snd (finish self tg)) = uuid self
          \<and> (r (running self ! k) = 0 \<longrightarrow>
                finished (snd (finish self tg)) = finished self @ [running self ! k]
              \<and> failed (snd (finish self tg)) = failed self)
          \<and> (r (running self ! k) \<noteq> 0 \<longrightarrow>
                failed (snd (finish self tg)) = failed self @ [running self ! k]
              \<and> finished (snd (finish self tg)) = finished self)))"
proof (intro conjI impI)
  assume "\<not> is_running self tg"
  then show "finish self tg = (False, self)" by (rule finish_not_running)
next
  assume "is_running self tg"
  from finish_running [OF this]
  obtain k where k: "k < length (running self)" "tag (running self ! k) = tg"
    "\<forall>j<k. tag (running self ! j) \<noteq> tg" "finish self tg = (True, move_out k self)"
    by blast
  show "\<exists>k<length (running self).
            tag (running self ! k) = tg
          \<and> (\<forall>j<k. tag (running self ! j) \<noteq> tg)
          \<and> fst (finish self tg) = True
          \<and> running (snd (finish self tg)) = take k (running self) @ drop (Suc k) (running self)
          \<and> waiting (snd (finish self tg)) = waiting self
          \<and> uuid (snd (finish self tg)) = uuid self
          \<and> (r (running self ! k) = 0 \<longrightarrow>
                finished (snd (finish self tg)) = finished self @ [running self ! k]
              \<and> failed (snd (finish self tg)) = failed self)
          \<and> (r (running self ! k) \<noteq> 0 \<longrightarrow>
                failed (snd (finish self tg)) = failed self @ [running self ! k]
              \<and> finished (snd (finish self tg)) = finished self)"
  proof (intro exI [of _ k] conjI)
    show "k < length (running self)" by (rule k(1))
    show "tag (running self ! k) = tg" by (rule k(2))
    show "\<forall>j<k. tag (running self ! j) \<noteq> tg" by (rule k(3))
  qed (simp_all add: k(4) move_out_def pop_def)
qed

theorem finish_spec_witness:
  "is_running \<lparr>uuid = ''7'', running = [\<lparr>tag = ''7:0'', r = 0, command = 0::nat\<rparr>,
                                        \<lparr>tag = ''7:1'', r = 5, command = 1\<rparr>],
               waiting = [[2]], finished = [], failed = []\<rparr> ''7:1''
   \<and> finish \<lparr>uuid = ''7'', running = [\<lparr>tag = ''7:0'', r = 0, command = 0::nat\<rparr>,
                                        \<lparr>tag = ''7:1'', r = 5, command = 1\<rparr>],
               waiting = [[2]], finished = [], failed = []\<rparr> ''7:1''
     = (True, \<lparr>uuid = ''7'', running = [\<lparr>tag = ''7:0'', r = 0, command = 0::nat\<rparr>],
               waiting = [[2]], finished = [], failed = [\<lparr>tag = ''7:1'', r = 5, command = 1\<rparr>]\<rparr>)
   \<and> \<not> is_running \<lparr>uuid = ''7'', running = [\<lparr>tag = ''7:0'', r = 0, command = 0::nat\<rparr>,
                                        \<lparr>tag = ''7:1'', r = 5, command = 1\<rparr>],
               waiting = [[2]], finished = [], failed = []\<rparr> ''7:2''
   \<and> finish \<lparr>uuid = ''7'', running = [\<lparr>tag = ''7:0'', r = 0, command = 0::nat\<rparr>,
                                        \<lparr>tag = ''7:1'', r = 5, command = 1\<rparr>],
               waiting = [[2]], finished = [], failed = []\<rparr> ''7:2''
     = (False, \<lparr>uuid = ''7'', running = [\<lparr>tag = ''7:0'', r = 0, command = 0::nat\<rparr>,
                                        \<lparr>tag = ''7:1'', r = 5, command = 1\<rparr>],
               waiting = [[2]], finished = [], failed = []\<rparr>)"
proof -
  let ?b = "\<lparr>uuid = ''7'', running = [\<lparr>tag = ''7:0'', r = 0, command = 0::nat\<rparr>,
                                        \<lparr>tag = ''7:1'', r = 5, command = 1\<rparr>],
               waiting = [[2]], finished = [], failed = []\<rparr>"
  have a: "is_running ?b ''7:1''" by (simp add: is_running_def)
  have b: "\<not> is_running ?b ''7:2''" by (simp add: is_running_def)
  have c: "finish ?b ''7:2'' = (False, ?b)"
    using finish_spec [of ?b "''7:2''"] b by blast
  have d: "finish ?b ''7:1''
     = (True, \<lparr>uuid = ''7'', running = [\<lparr>tag = ''7:0'', r = 0, command = 0::nat\<rparr>],
               waiting = [[2]], finished = [], failed = [\<lparr>tag = ''7:1'', r = 5, command = 1\<rparr>]\<rparr>)"
    by code_simp
  from a b c d show ?thesis by blast
qed

subsection \<open>C9: the sweep of finished batches\<close>

text \<open>
  C9: \<open>Request.delete\<close> removes from the registry exactly the batches that are finished
  and returns their number; the batches that are not finished stay, in their order. On
  a registry of a finished, a pending and a finished batch it returns 2 and keeps the
  pending batch only.
\<close>

theorem Request_delete_spec:
  "fst (Request_delete inst) = int (length (filter is_finished (requests inst)))
   \<and> requests (snd (Request_delete inst)) = filter (\<lambda>x. \<not> is_finished x) (requests inst)
   \<and> set (requests (snd (Request_delete inst))) = {x \<in> set (requests inst). \<not> is_finished x}
   \<and> subseq (requests (snd (Request_delete inst))) (requests inst)
   \<and> logged (snd (Request_delete inst)) = logged inst
   \<and> (is_finished b1 \<and> \<not> is_finished b2 \<and> is_finished b3 \<longrightarrow>
        Request_delete \<lparr>requests = [b1, b2, b3], logged = entries\<rparr>
          = (2, \<lparr>requests = [b2], logged = entries\<rparr>))"
proof -
  have "length (requests inst) = length (filter is_finished (requests inst))
        + length (filter (\<lambda>x. \<not> is_finished x) (requests inst))"
    by (simp add: sum_length_filter_compl)
  then have "fst (Request_delete inst) = int (length (filter is_finished (requests inst)))"
    by (simp add: Request_delete_def Let_def)
  moreover have "requests (snd (Request_delete inst)) = filter (\<lambda>x. \<not> is_finished x) (requests inst)"
    by (simp add: Request_delete_def Let_def)
  moreover have "logged (snd (Request_delete inst)) = logged inst"
    by (simp add: Request_delete_def Let_def)
  moreover have "is_finished b1 \<and> \<not> is_finished b2 \<and> is_finished b3 \<longrightarrow>
        Request_delete \<lparr>requests = [b1, b2, b3], logged = entries\<rparr>
          = (2, \<lparr>requests = [b2], logged = entries\<rparr>)"
    by (simp add: Request_delete_def Let_def)
  ultimately show ?thesis by simp
qed

theorem Request_delete_spec_witness:
  "is_finished \<lparr>uuid = ''7'', running = [], waiting = ([] :: nat list list), finished = [], failed = []\<rparr>
   \<and> \<not> is_finished \<lparr>uuid = ''8'', running = [], waiting = [[1::nat]], finished = [], failed = []\<rparr>
   \<and> is_finished \<lparr>uuid = ''9'', running = [], waiting = ([] :: nat list list), finished = [], failed = []\<rparr>
   \<and> Request_delete \<lparr>requests =
          [\<lparr>uuid = ''7'', running = [], waiting = [], finished = [], failed = []\<rparr>,
           \<lparr>uuid = ''8'', running = [], waiting = [[1::nat]], finished = [], failed = []\<rparr>,
           \<lparr>uuid = ''9'', running = [], waiting = [], finished = [], failed = []\<rparr>],
        logged = []\<rparr>
     = (2, \<lparr>requests = [\<lparr>uuid = ''8'', running = [], waiting = [[1]], finished = [], failed = []\<rparr>],
            logged = []\<rparr>)"
proof -
  let ?b1 = "\<lparr>uuid = ''7'', running = [], waiting = ([] :: nat list list), finished = [], failed = []\<rparr>"
  let ?b2 = "\<lparr>uuid = ''8'', running = [], waiting = [[1::nat]], finished = [], failed = []\<rparr>"
  let ?b3 = "\<lparr>uuid = ''9'', running = [], waiting = ([] :: nat list list), finished = [], failed = []\<rparr>"
  have h: "is_finished ?b1 \<and> \<not> is_finished ?b2 \<and> is_finished ?b3"
    by (simp add: is_finished_def)
  from Request_delete_spec [of "\<lparr>requests = [], logged = []\<rparr>" ?b1 ?b2 ?b3 "[]"] h
  show ?thesis by blast
qed

subsection \<open>C10: routing a notification\<close>

text \<open>
  C10: on a command notification, when the number of batches of the registry with an
  invocation of that tag in \<open>running\<close> is not one (none, or more than one), the router
  changes no batch and raises nothing. When exactly one batch, at position \<open>x\<close>, has
  such an invocation, the router changes that batch only: it applies the completion
  with \<open>finish\<close> and then calls \<open>next\<close> if and only if the batch is ready.
\<close>

theorem notify_routing:
  "(length (filter (\<lambda>b. is_running b tg) (requests self)) \<noteq> 1 \<longrightarrow>
      requests (snd (notify_inner env ''command'' tg self)) = requests self
    \<and> fst (notify_inner env ''command'' tg self) = None
    \<and> requests (notify env ''command'' tg self) = requests self)
   \<and> (length (filter (\<lambda>b. is_running b tg) (requests self)) = 1 \<longrightarrow>
       (\<exists>x<length (requests self).
           is_running (requests self ! x) tg
         \<and> (\<forall>y<length (requests self). y \<noteq> x \<longrightarrow> \<not> is_running (requests self ! y) tg)
         \<and> requests (snd (notify_inner env ''command'' tg self))
             = (requests self)[x := (if is_ready (snd (finish (requests self ! x) tg))
                          then snd (next_stage env (snd (finish (requests self ! x) tg)))
                          else snd (finish (requests self ! x) tg))]
         \<and> requests (notify env ''command'' tg self)
             = (requests self)[x := (if is_ready (snd (finish (requests self ! x) tg))
                          then snd (next_stage env (snd (finish (requests self ! x) tg)))
                          else snd (finish (requests self ! x) tg))]))"
proof (intro conjI impI)
  assume ne: "length (filter (\<lambda>b. is_running b tg) (requests self)) \<noteq> 1"
  then have ne': "length (filter (\<lambda>x. is_running (requests self ! x) tg) [0..<length (requests self)]) \<noteq> 1"
    using length_filter_positions [where P = "\<lambda>b. is_running b tg" and xs = "requests self"]
    by simp
  then show a: "requests (snd (notify_inner env ''command'' tg self)) = requests self"
    by (simp add: notify_inner_def Let_def)
  from ne' show b: "fst (notify_inner env ''command'' tg self) = None"
    by (simp add: notify_inner_def Let_def)
  from a show "requests (notify env ''command'' tg self) = requests self"
    by (simp add: requests_notify)
next
  assume "length (filter (\<lambda>b. is_running b tg) (requests self)) = 1"
  then have "length (filter (\<lambda>x. is_running (requests self ! x) tg) [0..<length (requests self)]) = 1"
    using length_filter_positions [where P = "\<lambda>b. is_running b tg" and xs = "requests self"]
    by simp
  from single_position [OF this]
  obtain x where x: "x < length (requests self)"
    "filter (\<lambda>x. is_running (requests self ! x) tg) [0..<length (requests self)] = [x]"
    "is_running (requests self ! x) tg"
    "\<forall>y<length (requests self). y \<noteq> x \<longrightarrow> \<not> is_running (requests self ! y) tg"
    by blast
  have c: "requests (snd (notify_inner env ''command'' tg self))
             = (requests self)[x := (if is_ready (snd (finish (requests self ! x) tg))
                          then snd (next_stage env (snd (finish (requests self ! x) tg)))
                          else snd (finish (requests self ! x) tg))]"
    using x(2) by (simp add: notify_inner_def Let_def split: prod.splits)
  then have d: "requests (notify env ''command'' tg self)
             = (requests self)[x := (if is_ready (snd (finish (requests self ! x) tg))
                          then snd (next_stage env (snd (finish (requests self ! x) tg)))
                          else snd (finish (requests self ! x) tg))]"
    by (simp add: requests_notify)
  from x c d show "\<exists>x<length (requests self).
           is_running (requests self ! x) tg
         \<and> (\<forall>y<length (requests self). y \<noteq> x \<longrightarrow> \<not> is_running (requests self ! y) tg)
         \<and> requests (snd (notify_inner env ''command'' tg self))
             = (requests self)[x := (if is_ready (snd (finish (requests self ! x) tg))
                          then snd (next_stage env (snd (finish (requests self ! x) tg)))
                          else snd (finish (requests self ! x) tg))]
         \<and> requests (notify env ''command'' tg self)
             = (requests self)[x := (if is_ready (snd (finish (requests self ! x) tg))
                          then snd (next_stage env (snd (finish (requests self ! x) tg)))
                          else snd (finish (requests self ! x) tg))]"
    by blast
qed

theorem notify_routing_witness:
  "length (filter (\<lambda>b. is_running b ''7:0'')
      (requests \<lparr>requests =
          [\<lparr>uuid = ''7'', running = [\<lparr>tag = ''7:0'', r = 0, command = 0::nat\<rparr>], waiting = [],
            finished = [], failed = []\<rparr>,
           \<lparr>uuid = ''7'', running = [\<lparr>tag = ''7:0'', r = 0, command = 1::nat\<rparr>], waiting = [],
            finished = [], failed = []\<rparr>],
         logged = []\<rparr>)) \<noteq> 1
   \<and> requests (notify mgr_ok ''command'' ''7:0''
        \<lparr>requests =
          [\<lparr>uuid = ''7'', running = [\<lparr>tag = ''7:0'', r = 0, command = 0::nat\<rparr>], waiting = [],
            finished = [], failed = []\<rparr>,
           \<lparr>uuid = ''7'', running = [\<lparr>tag = ''7:0'', r = 0, command = 1::nat\<rparr>], waiting = [],
            finished = [], failed = []\<rparr>],
         logged = []\<rparr>)
     = [\<lparr>uuid = ''7'', running = [\<lparr>tag = ''7:0'', r = 0, command = 0::nat\<rparr>], waiting = [],
            finished = [], failed = []\<rparr>,
           \<lparr>uuid = ''7'', running = [\<lparr>tag = ''7:0'', r = 0, command = 1::nat\<rparr>], waiting = [],
            finished = [], failed = []\<rparr>]"
proof -
  let ?st = "\<lparr>requests =
          [\<lparr>uuid = ''7'', running = [\<lparr>tag = ''7:0'', r = 0, command = 0::nat\<rparr>], waiting = [],
            finished = [], failed = []\<rparr>,
           \<lparr>uuid = ''7'', running = [\<lparr>tag = ''7:0'', r = 0, command = 1::nat\<rparr>], waiting = [],
            finished = [], failed = []\<rparr>],
         logged = []\<rparr>"
  have h: "length (filter (\<lambda>b. is_running b ''7:0'') (requests ?st)) \<noteq> 1"
    by (simp add: is_running_def)
  have "requests (notify mgr_ok ''command'' ''7:0'' ?st) = requests ?st"
    using notify_routing [of "''7:0''" ?st mgr_ok] h by blast
  with h show ?thesis by simp
qed

end
